theory Spec2Isabelle
  imports Main "HOL-Library.Word"
begin

section \<open>Machine integers\<close>

text \<open>
  Go's \<open>int\<close> on a 64-bit platform: a 64-bit two's complement integer whose
  arithmetic wraps around. \<open>sint\<close> reads the signed value.
\<close>

type_synonym go_int = "64 word"

section \<open>Recursion (hello.go, lines 228-234)\<close>

text \<open>
  \<open>recursiveFunction\<close> on 64-bit integers: the test \<open>n == 0\<close>, the wrapping
  product and the wrapping predecessor are Go's. As a function of the machine integers
  the recursion is well-founded: the unsigned value of the argument decreases until it
  is zero (for a negative argument, after the predecessor has wrapped around).
\<close>

function recursiveFunction :: "go_int \<Rightarrow> go_int" where
  "recursiveFunction n = (if n = 0 then 1 else n * recursiveFunction (n - 1))"
  by pat_completeness auto
termination
  by (relation "measure unat") (auto simp: unat_minus_one unat_gt_0)

declare recursiveFunction.simps [simp del]

text \<open>
  The same function run on a stack that holds at most \<open>d\<close> nested calls:
  \<open>None\<close> is the stack overflow with which the Go runtime ends the program.
\<close>

fun recursiveFunction_depth :: "nat \<Rightarrow> go_int \<Rightarrow> go_int option" where
  "recursiveFunction_depth 0 n = None"
| "recursiveFunction_depth (Suc d) n =
     (if n = 0 then Some 1
      else case recursiveFunction_depth d (n - 1) of
             None \<Rightarrow> None
           | Some r \<Rightarrow> Some (n * r))"

section \<open>Errors (hello.go, lines 372-398)\<close>

text \<open>
  The struct \<open>customError\<close> with its two fields, and the two dynamic types of
  the \<open>error\<close> interface values that the file builds: the value of
  \<open>errors.New\<close> (a message) and a pointer to a \<open>customError\<close>.
  The \<open>nil\<close> error is \<open>None\<close>.
\<close>

record customError =
  arg :: go_int
  prob :: string

datatype error = ErrorString string | CustomErrorPtr customError

text \<open>
  Both functions return a pair, as the Go functions do: the value and the error
  are both present in every return.
\<close>

definition functionWithDefaultError :: "go_int \<Rightarrow> go_int \<times> error option" where
  "functionWithDefaultError a =
     (if a = 13 then (- 1, Some (ErrorString ''unlucky number detected''))
      else (a + 1, None))"

definition functionWithCustomError :: "go_int \<Rightarrow> go_int \<times> error option" where
  "functionWithCustomError a =
     (if a = 13 then (- 1, Some (CustomErrorPtr \<lparr>arg = a, prob = ''just can't do it bro''\<rparr>))
      else (a + 2, None))"

text \<open>The type assertion \<open>e.(*customError)\<close> of \<open>testErrors\<close>.\<close>

fun is_customError :: "error option \<Rightarrow> bool" where
  "is_customError (Some (CustomErrorPtr e)) = True"
| "is_customError _ = False"

section \<open>Closures (hello.go, lines 210-226)\<close>

text \<open>
  The variable \<open>i\<close> of \<open>closureReturner\<close> outlives the call, so it lives in a
  store: \<open>cells\<close> holds the contents of the variables allocated so far and
  \<open>next_addr\<close> is the address of the next one. A closure value is the function
  literal together with the address of the \<open>i\<close> it captured.
\<close>

record heap =
  cells :: "nat \<Rightarrow> go_int"
  next_addr :: nat

datatype closure = Closure (captured: nat)

text \<open>\<open>i := 0\<close> allocates a new variable; the function literal captures it.\<close>

definition closureReturner :: "heap \<Rightarrow> closure \<times> heap" where
  "closureReturner h =
     (let i = next_addr h
      in (Closure i, h\<lparr>cells := (cells h)(i := 0), next_addr := Suc i\<rparr>))"

text \<open>The body of the function literal: \<open>i++; return i\<close>.\<close>

fun call_closure :: "closure \<Rightarrow> heap \<Rightarrow> go_int \<times> heap" where
  "call_closure (Closure i) h =
     (let h' = h\<lparr>cells := (cells h)(i := cells h i + 1)\<rparr>
      in (cells h' i, h'))"

text \<open>
  A caller of these functions is a sequence of statements: \<open>Make\<close> calls
  \<open>closureReturner\<close> and keeps the closure, \<open>Call k\<close> invokes the closure that
  the \<open>k\<close>-th \<open>Make\<close> returned (counted from 0). \<open>run\<close> gives the values
  returned by the invocations, in order and each with the index of its closure;
  \<open>None\<close> when a statement names a closure that does not exist yet, which no Go
  program can do. \<open>scoped\<close> is that condition on the statements alone.
\<close>

datatype stmt = Make | Call nat

fun run :: "stmt list \<Rightarrow> closure list \<Rightarrow> heap \<Rightarrow> (nat \<times> go_int) list option" where
  "run [] cs h = Some []"
| "run (Make # p) cs h = (case closureReturner h of (c, h') \<Rightarrow> run p (cs @ [c]) h')"
| "run (Call k # p) cs h =
     (if k < length cs
      then case call_closure (cs ! k) h of (v, h') \<Rightarrow> map_option ((#) (k, v)) (run p cs h')
      else None)"

text \<open>The calls of \<open>closureTester\<close>, whose comments expect 1, 2, 3 and 1.\<close>

definition closureTester :: "stmt list" where
  "closureTester = [Make, Call 0, Call 0, Call 0, Make, Call 1]"

fun scoped :: "nat \<Rightarrow> stmt list \<Rightarrow> bool" where
  "scoped n [] = True"
| "scoped n (Make # p) = scoped (Suc n) p"
| "scoped n (Call k # p) = (k < n \<and> scoped n p)"

text \<open>
  \<open>k\<close> invocations of one closure in a row: the value the last of them returned
  (the counter itself when \<open>k = 0\<close>) and the store afterwards.
\<close>

fun call_times :: "nat \<Rightarrow> closure \<Rightarrow> heap \<Rightarrow> go_int \<times> heap" where
  "call_times 0 c h = (cells h (captured c), h)"
| "call_times (Suc k) c h = (case call_closure c h of (v, h') \<Rightarrow> call_times k c h')"

definition empty_heap :: heap where
  "empty_heap = \<lparr>cells = (\<lambda>a. 0), next_addr = 0\<rparr>"

text \<open>
  \<open>calls_of k tr\<close> counts the invocations of closure \<open>k\<close> in a trace;
  \<open>counter\<close> reads the captured variable of closure \<open>k\<close>; \<open>separate\<close> says
  that the closures captured pairwise different, allocated variables.
\<close>

definition calls_of :: "nat \<Rightarrow> (nat \<times> go_int) list \<Rightarrow> nat" where
  "calls_of k tr = length (filter (\<lambda>e. fst e = k) tr)"

definition counter :: "closure list \<Rightarrow> heap \<Rightarrow> nat \<Rightarrow> go_int" where
  "counter cs h k = (if k < length cs then cells h (captured (cs ! k)) else 0)"

definition separate :: "closure list \<Rightarrow> heap \<Rightarrow> bool" where
  "separate cs h = (distinct (map captured cs) \<and> list_all (\<lambda>c. captured c < next_addr h) cs)"

section \<open>Signed values of 64-bit integers\<close>

lemma sint_go_int: "sint (w :: go_int) = (if uint w < 2 ^ 63 then uint w else uint w - 2 ^ 64)"
proof -
  have b: "uint w < 2 ^ 64" "0 \<le> uint w" using uint_lt2p [of w] by simp_all
  have s: "sint w = (uint w + 2 ^ 63) mod 2 ^ 64 - 2 ^ 63"
    by (simp add: sint_uint signed_take_bit_eq_take_bit_shift take_bit_eq_mod)
  show ?thesis
  proof (cases "uint w < 2 ^ 63")
    case True
    then have "(uint w + 2 ^ 63) mod 2 ^ 64 = uint w + 2 ^ 63"
      using b by (intro mod_pos_pos_trivial) auto
    with True s show ?thesis by simp
  next
    case False
    have "(uint w + 2 ^ 63) mod 2 ^ 64 = (uint w + 2 ^ 63 - 2 ^ 64) mod 2 ^ 64"
      by (simp only: minus_mod_self2)
    also have "\<dots> = uint w + 2 ^ 63 - 2 ^ 64"
      using False b by (intro mod_pos_pos_trivial) auto
    finally show ?thesis using False s by simp
  qed
qed

lemma sint_go_int_nonneg:
  fixes w :: go_int
  shows "(0 \<le> sint w) = (uint w < 2 ^ 63)"
proof (cases "uint w < 2 ^ 63")
  case True
  then have "sint w = uint w" by (simp only: sint_go_int if_True)
  with True show ?thesis by simp
next
  case False
  then have "sint w = uint w - 2 ^ 64" by (simp only: sint_go_int if_False)
  moreover have "uint w - 2 ^ 64 < 0" using uint_lt2p [of w] by simp
  ultimately have "sint w < 0" by (simp only:)
  with False show ?thesis by simp
qed

lemma neg_unat_large:
  fixes n :: go_int
  assumes "n <s 0"
  shows "2 ^ 63 \<le> unat n"
proof -
  from assms have "\<not> 0 \<le> sint n" by (simp add: word_sless_alt)
  then have "\<not> uint n < 2 ^ 63" by (simp only: sint_go_int_nonneg simp_thms)
  then show ?thesis by (simp add: not_less uint_nat [of n] del: of_nat_unat)
qed

lemma nonneg_unat:
  fixes n :: go_int
  assumes "0 <=s n"
  shows "int (unat n) = sint n"
proof -
  from assms have "0 \<le> sint n" by (simp add: word_sle_eq)
  then have "uint n < 2 ^ 63" by (simp only: sint_go_int_nonneg simp_thms)
  then have "sint n = uint n" by (simp only: sint_go_int if_True)
  then show ?thesis by simp
qed

lemma sint_of_nat_small:
  assumes "m < 2 ^ 63"
  shows "sint (word_of_nat m :: go_int) = int m"
proof -
  from assms have "m < 2 ^ 64" by simp
  then have "uint (word_of_nat m :: go_int) = int m"
    by (simp add: uint_nat unat_of_nat take_bit_nat_eq_self)
  then show ?thesis using assms by (simp add: sint_go_int)
qed

lemma recursiveFunction_zero: "recursiveFunction 0 = 1"
  by (simp add: recursiveFunction.simps)

lemma recursiveFunction_step: "n \<noteq> 0 \<Longrightarrow> recursiveFunction n = n * recursiveFunction (n - 1)"
  by (subst recursiveFunction.simps) simp

lemma recursiveFunction_fact: "recursiveFunction n = word_of_nat (fact (unat n))"
proof (induction k \<equiv> "unat n" arbitrary: n)
  case 0
  then have "n = 0" by (simp add: unat_eq_0)
  then show ?case by (simp add: recursiveFunction_zero)
next
  case (Suc k)
  then have nz: "n \<noteq> 0" by auto
  have pred: "unat (n - 1) = k" using Suc.hyps(2) nz by (simp add: unat_minus_one)
  have "recursiveFunction n = n * word_of_nat (fact k)"
    using Suc.hyps(1) [of "n - 1"] pred nz by (simp add: recursiveFunction_step)
  moreover have "n = word_of_nat (Suc k)" by (simp only: Suc.hyps(2) of_nat_unat ucast_id)
  ultimately have "recursiveFunction n = word_of_nat (Suc k) * word_of_nat (fact k)" by simp
  also have "\<dots> = word_of_nat (Suc k * fact k)" by (rule of_nat_mult [symmetric])
  also have "Suc k * fact k = fact (Suc k)" by simp
  finally show ?case by (simp only: Suc.hyps(2))
qed

lemma recursiveFunction_depth_eq:
  "recursiveFunction_depth d n = (if unat n < d then Some (recursiveFunction n) else None)"
proof (induction d arbitrary: n)
  case 0
  show ?case by simp
next
  case (Suc d)
  show ?case
  proof (cases "n = 0")
    case True
    then show ?thesis by (simp add: recursiveFunction_zero)
  next
    case False
    then have "unat (n - 1) = unat n - 1" "0 < unat n"
      by (simp_all add: unat_minus_one unat_gt_0)
    then have bound: "(unat (n - 1) < d) = (unat n < Suc d)" by linarith
    have step: "recursiveFunction n = n * recursiveFunction (n - 1)"
      using False by (rule recursiveFunction_step)
    have "recursiveFunction_depth (Suc d) n =
        (case recursiveFunction_depth d (n - 1) of None \<Rightarrow> None | Some r \<Rightarrow> Some (n * r))"
      using False by simp
    then show ?thesis by (simp add: Suc [of "n - 1"] bound step)
  qed
qed

lemma fact_small:
  assumes "k \<le> 20"
  shows "(fact k :: nat) < 2 ^ 63"
proof -
  from assms have "(fact k :: nat) \<le> fact 20" by (rule fact_mono)
  also have "(fact 20 :: nat) < 2 ^ 63" by (simp add: fact_numeral)
  finally show ?thesis .
qed

lemma recursiveFunction_exact:
  fixes n :: go_int
  assumes "0 <=s n" and "n <=s 20"
  shows "sint (recursiveFunction n) = fact (nat (sint n))"
proof -
  have u: "int (unat n) = sint n" using assms(1) by (rule nonneg_unat)
  have "sint n \<le> 20" using assms(2) by (simp add: word_sle_eq)
  with u have k: "unat n \<le> 20" by linarith
  have un: "nat (sint n) = unat n" using u by linarith
  have "sint (recursiveFunction n) = int (fact (unat n))"
    unfolding recursiveFunction_fact using fact_small [OF k] by (rule sint_of_nat_small)
  then show ?thesis by (simp only: un of_nat_fact)
qed

section \<open>The factorial example\<close>

text \<open>
  Claim C8, as the code has it. \<open>recursiveFunction 0 = 1\<close> and
  \<open>recursiveFunction n = n * recursiveFunction (n - 1)\<close> for \<open>n \<noteq> 0\<close>, with
  Go's wrapping product, so the result is \<open>n!\<close> reduced modulo \<open>2 ^ 64\<close>; it
  is \<open>n!\<close> itself for \<open>0 \<le> n \<le> 20\<close>. A call with \<open>n \<ge> 0\<close> returns on every
  stack that holds more than \<open>n\<close> nested calls. A call with negative \<open>n\<close> does
  not reach the base case on any stack of at most \<open>2 ^ 63\<close> nested calls.
\<close>

theorem recursiveFunction_factorial_wraps:
  fixes n :: go_int
  shows
  "recursiveFunction 0 = 1 \<and>
   (n \<noteq> 0 \<longrightarrow> recursiveFunction n = n * recursiveFunction (n - 1)) \<and>
   recursiveFunction n = word_of_nat (fact (unat n)) \<and>
   (0 <=s n \<and> n <=s 20 \<longrightarrow> sint (recursiveFunction n) = fact (nat (sint n))) \<and>
   (unat n < d \<longrightarrow> recursiveFunction_depth d n = Some (recursiveFunction n)) \<and>
   (0 <=s n \<longrightarrow> int (unat n) = sint n) \<and>
   (n <s 0 \<and> d \<le> 2 ^ 63 \<longrightarrow> recursiveFunction_depth d n = None)"
proof (intro conjI impI)
  show "recursiveFunction 0 = 1" by (rule recursiveFunction_zero)
  show "recursiveFunction n = n * recursiveFunction (n - 1)" if "n \<noteq> 0"
    using that by (rule recursiveFunction_step)
  show "recursiveFunction n = word_of_nat (fact (unat n))" by (rule recursiveFunction_fact)
  show "sint (recursiveFunction n) = fact (nat (sint n))" if "0 <=s n \<and> n <=s 20"
    using that by (simp add: recursiveFunction_exact)
  show "recursiveFunction_depth d n = Some (recursiveFunction n)" if "unat n < d"
    using that by (simp add: recursiveFunction_depth_eq)
  show "int (unat n) = sint n" if "0 <=s n" using that by (rule nonneg_unat)
  show "recursiveFunction_depth d n = None" if "n <s 0 \<and> d \<le> 2 ^ 63"
  proof -
    from that have "n <s 0" and d: "d \<le> 2 ^ 63" by simp_all
    then have "2 ^ 63 \<le> unat n" by (simp only: neg_unat_large)
    with d have "\<not> unat n < d" by linarith
    then show ?thesis by (simp add: recursiveFunction_depth_eq)
  qed
qed

theorem recursiveFunction_factorial_wraps_witness:
  "sint (recursiveFunction 5) = 120 \<and> recursiveFunction_depth 6 5 = Some (recursiveFunction 5) \<and>
   recursiveFunction 5 = 5 * recursiveFunction 4 \<and>
   recursiveFunction_depth (2 ^ 63) (- 1) = None"
proof -
  note five = recursiveFunction_factorial_wraps [of 5 6]
  note neg = recursiveFunction_factorial_wraps [of "- 1" "2 ^ 63"]
  have f5: "fact (nat (sint (5 :: go_int))) = (120 :: int)" by (simp add: fact_numeral)
  have a: "sint (recursiveFunction 5) = 120"
    using five [THEN conjunct2, THEN conjunct2, THEN conjunct2, THEN conjunct1] f5
    by (simp add: word_sle_eq)
  have b: "recursiveFunction_depth 6 5 = Some (recursiveFunction 5)"
    using five [THEN conjunct2, THEN conjunct2, THEN conjunct2, THEN conjunct2, THEN conjunct1]
    by simp
  have c: "recursiveFunction 5 = 5 * recursiveFunction 4"
    using five [THEN conjunct2, THEN conjunct1] by simp
  have d: "recursiveFunction_depth (2 ^ 63) (- 1) = None"
    using neg [THEN conjunct2, THEN conjunct2, THEN conjunct2, THEN conjunct2, THEN conjunct2,
      THEN conjunct2]
    by simp
  from a b c d show ?thesis by (simp only: simp_thms)
qed

text \<open>
  The claim as it was stated fails at \<open>n = 21\<close>: \<open>21!\<close> is larger than the
  largest 64-bit integer and the product wraps to a negative number.
\<close>

theorem recursiveFunction_21_counterexample:
  "0 <=s (21 :: go_int) \<and> sint (recursiveFunction 21) \<noteq> fact 21 \<and>
   sint (recursiveFunction 21) = - 4249290049419214848"
  by (simp add: recursiveFunction_fact fact_numeral word_sle_eq)

section \<open>Error results\<close>

text \<open>
  Claim C9. \<open>functionWithDefaultError a\<close> returns a non-nil error exactly when
  \<open>a = 13\<close>, and then its first result is \<open>-1\<close>; otherwise it returns
  \<open>(a + 1, nil)\<close>. \<open>functionWithCustomError a\<close> returns a non-nil error, which
  is a pointer to a \<open>customError\<close>, exactly when \<open>a = 13\<close>, and then its first
  result is \<open>-1\<close>; otherwise it returns \<open>(a + 2, nil)\<close>. The sums are Go's, on
  64-bit integers.
\<close>

theorem error_functions_results:
  "(snd (functionWithDefaultError a) \<noteq> None) = (a = 13) \<and>
   (a = 13 \<longrightarrow> fst (functionWithDefaultError a) = - 1) \<and>
   (a \<noteq> 13 \<longrightarrow> functionWithDefaultError a = (a + 1, None)) \<and>
   (snd (functionWithCustomError a) \<noteq> None) = (a = 13) \<and>
   is_customError (snd (functionWithCustomError a)) = (a = 13) \<and>
   (a = 13 \<longrightarrow> fst (functionWithCustomError a) = - 1) \<and>
   (a \<noteq> 13 \<longrightarrow> functionWithCustomError a = (a + 2, None))"
  by (simp add: functionWithDefaultError_def functionWithCustomError_def)

theorem error_functions_results_witness:
  "fst (functionWithDefaultError 13) = - 1 \<and> snd (functionWithDefaultError 13) \<noteq> None \<and>
   functionWithDefaultError 1 = (2, None) \<and>
   fst (functionWithCustomError 13) = - 1 \<and> is_customError (snd (functionWithCustomError 13)) \<and>
   functionWithCustomError 1 = (3, None)"
  using error_functions_results [of 13] error_functions_results [of 1]
  by simp

section \<open>Closures and their counters\<close>

lemma separate_Make:
  assumes "separate cs h" and "closureReturner h = (c, h')"
  shows "separate (cs @ [c]) h'" and "counter (cs @ [c]) h' k = counter cs h k"
proof -
  from assms(2) have c: "c = Closure (next_addr h)"
    and h': "h' = h\<lparr>cells := (cells h)(next_addr h := 0), next_addr := Suc (next_addr h)\<rparr>"
    by (simp_all add: closureReturner_def Let_def)
  from assms(1) have old: "\<forall>x \<in> set cs. captured x < next_addr h" and d: "distinct (map captured cs)"
    by (simp_all add: separate_def list_all_iff)
  show "separate (cs @ [c]) h'"
    using old d by (auto simp: separate_def list_all_iff c h' less_Suc_eq)
  show "counter (cs @ [c]) h' k = counter cs h k"
  proof (cases "k < length cs")
    case True
    then have "captured (cs ! k) \<noteq> next_addr h" using old by (metis nth_mem less_irrefl)
    with True show ?thesis by (simp add: counter_def nth_append h')
  next
    case False
    then show ?thesis by (simp add: counter_def nth_append c h')
  qed
qed

lemma separate_Call:
  assumes "separate cs h" and "k < length cs" and "call_closure (cs ! k) h = (v, h')"
  shows "separate cs h'" and "v = counter cs h k + 1"
    and "counter cs h' j = counter cs h j + (if j = k then 1 else 0)"
proof -
  obtain i where ck: "cs ! k = Closure i" by (cases "cs ! k")
  with assms(3) have v: "v = cells h i + 1" and h': "h' = h\<lparr>cells := (cells h)(i := cells h i + 1)\<rparr>"
    by (auto simp: Let_def)
  show "separate cs h'" using assms(1) by (simp add: separate_def h')
  show "v = counter cs h k + 1" using assms(2) ck v by (simp add: counter_def)
  show "counter cs h' j = counter cs h j + (if j = k then 1 else 0)"
  proof (cases "j < length cs")
    case True
    have "distinct (map captured cs)" using assms(1) by (simp add: separate_def)
    then have "(captured (cs ! j) = captured (cs ! k)) = (j = k)"
      using True assms(2) by (auto simp: distinct_conv_nth)
    then show ?thesis using True ck by (auto simp: counter_def h')
  next
    case False
    with assms(2) have "j \<noteq> k" by auto
    with False show ?thesis by (simp add: counter_def)
  qed
qed

lemma run_counts:
  assumes "run p cs h = Some tr" and "separate cs h" and "j < length tr" and "tr ! j = (k, v)"
  shows "v = counter cs h k + word_of_nat (calls_of k (take (Suc j) tr))"
  using assms
proof (induction p cs h arbitrary: tr j rule: run.induct)
  case (1 cs h)
  then show ?case by simp
next
  case (2 p cs h)
  obtain c h' where m: "closureReturner h = (c, h')" by (cases "closureReturner h")
  with "2.prems"(1) have r: "run p (cs @ [c]) h' = Some tr" by simp
  have "v = counter (cs @ [c]) h' k + word_of_nat (calls_of k (take (Suc j) tr))"
    using "2.IH" [OF m [symmetric] r separate_Make(1) [OF "2.prems"(2) m] "2.prems"(3,4)] .
  then show ?case by (simp only: separate_Make(2) [OF "2.prems"(2) m])
next
  case (3 k0 p cs h)
  from "3.prems"(1) have k0: "k0 < length cs" by (simp split: if_splits)
  obtain v0 h' where c: "call_closure (cs ! k0) h = (v0, h')" by (cases "call_closure (cs ! k0) h")
  with "3.prems"(1) k0 obtain tr' where r: "run p cs h' = Some tr'" and tr: "tr = (k0, v0) # tr'"
    by auto
  note sc = separate_Call [OF "3.prems"(2) k0 c]
  show ?case
  proof (cases j)
    case 0
    with "3.prems"(4) tr have "k = k0" "v = v0" by simp_all
    then show ?thesis using sc(2) 0 tr by (simp add: calls_of_def)
  next
    case (Suc j')
    with "3.prems"(3,4) tr have j': "j' < length tr'" and e: "tr' ! j' = (k, v)" by simp_all
    have "v = counter cs h' k + word_of_nat (calls_of k (take (Suc j') tr'))"
      using "3.IH" [OF k0 c [symmetric] r sc(1) j' e] .
    then show ?thesis using Suc tr by (simp add: sc(3) calls_of_def)
  qed
qed

lemma run_scoped: "(run p cs h \<noteq> None) = scoped (length cs) p"
proof (induction p cs h rule: run.induct)
  case (1 cs h)
  show ?case by simp
next
  case (2 p cs h)
  obtain c h' where m: "closureReturner h = (c, h')" by (cases "closureReturner h")
  with "2.IH" [OF m [symmetric]] show ?case by simp
next
  case (3 k p cs h)
  obtain v h' where c: "call_closure (cs ! k) h = (v, h')" by (cases "call_closure (cs ! k) h")
  show ?case
  proof (cases "k < length cs")
    case True
    with "3.IH" [OF True c [symmetric]] c show ?thesis by simp
  next
    case False
    then show ?thesis by simp
  qed
qed

lemma separate_Nil: "separate [] h"
  by (simp add: separate_def)

lemma call_times_value: "fst (call_times k c h) = cells h (captured c) + word_of_nat k"
proof (induction k arbitrary: h)
  case 0
  show ?case by simp
next
  case (Suc k)
  obtain i where c: "c = Closure i" by (cases c)
  show ?case using Suc [of "h\<lparr>cells := (cells h)(i := cells h i + 1)\<rparr>"]
    by (simp add: c Let_def)
qed

text \<open>
  Claim C10, as the code has it. The variable captured by a closure that
  \<open>closureReturner\<close> returns is new and holds 0. In every sequence of calls of
  \<open>closureReturner\<close> and invocations of the closures it returned, in any order,
  each invocation returns the number of invocations of that same closure so far, as a
  64-bit integer: invocations of other closures do not change it. That value is the
  count itself while the count is below \<open>2 ^ 63\<close>.
\<close>

theorem closure_counters:
  "(closureReturner h = (c, h') \<longrightarrow>
      cells h' (captured c) = 0 \<and> captured c = next_addr h \<and> next_addr h' = Suc (next_addr h)) \<and>
   (run p [] h \<noteq> None) = scoped 0 p \<and>
   (run p [] h = Some tr \<and> j < length tr \<and> tr ! j = (k, v) \<longrightarrow>
      v = word_of_nat (calls_of k (take (Suc j) tr)) \<and>
      (calls_of k (take (Suc j) tr) < 2 ^ 63 \<longrightarrow> sint v = int (calls_of k (take (Suc j) tr))))"
proof (intro conjI impI)
  assume "closureReturner h = (c, h')"
  then show "cells h' (captured c) = 0" "captured c = next_addr h" "next_addr h' = Suc (next_addr h)"
    by (auto simp: closureReturner_def Let_def)
next
  show "(run p [] h \<noteq> None) = scoped 0 p" using run_scoped [of p "[]" h] by simp
next
  assume a: "run p [] h = Some tr \<and> j < length tr \<and> tr ! j = (k, v)"
  then have "v = counter [] h k + word_of_nat (calls_of k (take (Suc j) tr))"
    using separate_Nil by (blast intro: run_counts)
  then show v: "v = word_of_nat (calls_of k (take (Suc j) tr))" by (simp add: counter_def)
  assume "calls_of k (take (Suc j) tr) < 2 ^ 63"
  then show "sint v = int (calls_of k (take (Suc j) tr))"
    unfolding v by (rule sint_of_nat_small)
qed

lemma closureTester_run:
  "run closureTester [] empty_heap = Some [(0, 1), (0, 2), (0, 3), (1, 1)]"
  by (simp add: closureTester_def empty_heap_def closureReturner_def Let_def)

theorem closure_counters_witness:
  "run closureTester [] empty_heap = Some [(0, 1), (0, 2), (0, 3), (1, 1)] \<and>
   scoped 0 closureTester \<and>
   calls_of 0 (take 3 [(0, 1), (0, 2), (0, 3), (1, 1 :: go_int)]) = 3 \<and>
   calls_of 1 (take 4 [(0, 1), (0, 2), (0, 3), (1, 1 :: go_int)]) = 1 \<and>
   cells (snd (closureReturner empty_heap)) (captured (fst (closureReturner empty_heap))) = 0"
  using closure_counters [of empty_heap "fst (closureReturner empty_heap)"
      "snd (closureReturner empty_heap)" closureTester "[(0, 1), (0, 2), (0, 3), (1, 1)]" 2 0 3]
    closure_counters [of empty_heap "fst (closureReturner empty_heap)"
      "snd (closureReturner empty_heap)" closureTester "[(0, 1), (0, 2), (0, 3), (1, 1)]" 3 1 1]
    closureTester_run
  by (simp add: calls_of_def)

text \<open>
  The claim as it was stated, for every \<open>k \<ge> 1\<close>, fails at \<open>k = 2 ^ 63\<close>: the
  counter is a 64-bit integer and the \<open>2 ^ 63\<close>-th invocation of a closure returns
  \<open>- (2 ^ 63)\<close>.
\<close>

theorem closure_counter_wraps_counterexample:
  "sint (fst (call_times (2 ^ 63) (fst (closureReturner empty_heap)) (snd (closureReturner empty_heap))))
     = - (2 ^ 63) \<and>
   sint (fst (call_times (2 ^ 63) (fst (closureReturner empty_heap)) (snd (closureReturner empty_heap))))
     \<noteq> 2 ^ 63"
  by (simp add: call_times_value closureReturner_def Let_def empty_heap_def)

end
